theory Spec2Isabelle
  imports Complex_Main "HOL-Library.Sublist"
begin

section \<open>The asyncio reactor of the driver: \<^verbatim>\<open>cassandra/io/asyncioreactor.py\<close>\<close>

text \<open>
  A shallow embedding of \<^verbatim>\<open>AsyncioTimer\<close> and \<^verbatim>\<open>AsyncioConnection\<close>.
  Byte strings are lists of 8-bit characters, Python integers are \<open>int\<close>, every raise
  of the source is a value of an exception type, and the two coroutines
  \<^verbatim>\<open>handle_write\<close> and \<^verbatim>\<open>handle_read\<close> are run against what their
  environment (the outbound queue, the socket) gives them, up to the point where they
  suspend or return.
\<close>

subsection \<open>Python values used by the module\<close>

type_synonym bytes = string

text \<open>The built-in exceptions the module raises itself or gets from the interpreter.\<close>

datatype exn = ValueError | AttributeError | TypeError | NotImplementedError | RuntimeError

text \<open>
  What a socket operation can raise. All three are instances of \<^verbatim>\<open>socket.error\<close>
  (\<^verbatim>\<open>OSError\<close>): \<^verbatim>\<open>ssl.SSLWantWriteError\<close> and \<^verbatim>\<open>ssl.SSLWantReadError\<close> are
  subclasses of it, so the order of the \<^verbatim>\<open>except\<close> clauses of the source matters.
\<close>

datatype socket_error = SSLWantWriteError | SSLWantReadError | OtherSocketError nat

text \<open>
  \<^verbatim>\<open>range(start, stop, step)\<close>: a \<^verbatim>\<open>ValueError\<close> for step zero, the ascending
  indices below \<open>stop\<close> for a positive step, the descending ones above \<open>stop\<close> for a
  negative step.
\<close>

function range_up :: "int \<Rightarrow> int \<Rightarrow> int \<Rightarrow> int list" where
  "range_up i stop step =
     (if 0 < step \<and> i < stop then i # range_up (i + step) stop step else [])"
  by pat_completeness auto
termination
  by (relation "measure (\<lambda>(i, stop, step). nat (stop - i))") auto

declare range_up.simps [simp del]

function range_down :: "int \<Rightarrow> int \<Rightarrow> int \<Rightarrow> int list" where
  "range_down i stop step =
     (if step < 0 \<and> stop < i then i # range_down (i + step) stop step else [])"
  by pat_completeness auto
termination
  by (relation "measure (\<lambda>(i, stop, step). nat (i - stop))") auto

declare range_down.simps [simp del]

definition py_range :: "int \<Rightarrow> int \<Rightarrow> int \<Rightarrow> exn + int list" where
  "py_range start stop step =
     (if step = 0 then Inl ValueError
      else if 0 < step then Inr (range_up start stop step)
      else Inr (range_down start stop step))"

text \<open>
  \<^verbatim>\<open>xs[i:j]\<close>: a negative bound counts from the end, and both bounds are clamped to
  the sequence, so a slice never raises.
\<close>

definition slice_bound :: "int \<Rightarrow> int \<Rightarrow> int" where
  "slice_bound n k = (if k < 0 then max 0 (k + n) else min k n)"

definition py_slice :: "'a list \<Rightarrow> int \<Rightarrow> int \<Rightarrow> 'a list" where
  "py_slice xs i j =
     (let n = int (length xs); a = slice_bound n i; b = slice_bound n j
      in take (nat (b - a)) (drop (nat a) xs))"

text \<open>
  \<^verbatim>\<open>io.BytesIO\<close>, the type of the connection's \<^verbatim>\<open>_iobuf\<close>: the contents and the
  stream position. \<^verbatim>\<open>write\<close> overwrites from the position on (padding with zero
  bytes when the position is past the end) and advances the position by the number of
  bytes written; \<^verbatim>\<open>tell\<close> reads the position.
\<close>

record bytesio =
  contents :: bytes
  pos :: nat

definition bytesio_write :: "bytesio \<Rightarrow> bytes \<Rightarrow> bytesio" where
  "bytesio_write b buf =
     (if buf = [] then b
      else \<lparr>contents = take (pos b) (contents b) @ replicate (pos b - length (contents b)) (CHR 0x00)
                        @ buf @ drop (pos b + length buf) (contents b),
            pos = pos b + length buf\<rparr>)"

definition bytesio_tell :: "bytesio \<Rightarrow> nat" where
  "bytesio_tell b = pos b"

subsection \<open>The connection\<close>

text \<open>
  A task handle, as \<^verbatim>\<open>asyncio.run_coroutine_threadsafe\<close> returns it for the two
  coroutines of a connection: the coroutine is still scheduled, it has returned, or it
  has been cancelled. \<^verbatim>\<open>cancel()\<close> never raises, and changes nothing once the task is
  over.
\<close>

datatype task = Pending | Finished | Cancelled

definition cancel :: "task \<Rightarrow> task" where
  "cancel t = (if t = Pending then Cancelled else t)"

text \<open>What the two loops do, in order: their socket operations and the calls they make.\<close>

datatype event =
    Dequeue bytes
  | Sendall bytes
  | Recv
  | Yield
  | ProcessIoBuffer
  | Defunct socket_error
  | Close

text \<open>
  The state of one \<^verbatim>\<open>AsyncioConnection\<close>. \<open>submitted_puts\<close> holds the chunks of the
  coroutines \<^verbatim>\<open>self._write_queue.put(chunk)\<close> that \<^verbatim>\<open>_push_chunk\<close> has handed to the
  loop and the loop has not run yet, oldest first (the loop runs what it is handed in
  the order it is handed); \<open>write_queue\<close> is the unbounded \<^verbatim>\<open>asyncio.Queue\<close>.
  \<open>sent\<close> is the byte stream the socket has taken, \<open>sendalls\<close> the number of
  \<^verbatim>\<open>sock_sendall\<close> calls made, \<open>calls\<close> the log of what the loops did.
\<close>

record connection =
  out_buffer_size :: int
  is_closed :: bool
  connected_event :: bool
  submitted_puts :: "bytes list"
  write_queue :: "bytes list"
  write_watcher :: task
  read_watcher :: task
  write_watcher_cancels :: nat
  read_watcher_cancels :: nat
  sent :: bytes
  sendalls :: nat
  iobuf :: bytesio
  calls :: "event list"

text \<open>
  The connection as \<^verbatim>\<open>__init__\<close> leaves it, before the options message is pushed:
  not closed, an empty queue, both coroutines scheduled.
\<close>

definition new_connection :: "int \<Rightarrow> connection" where
  "new_connection buff_size =
     \<lparr>out_buffer_size = buff_size, is_closed = False, connected_event = False,
      submitted_puts = [], write_queue = [], write_watcher = Pending, read_watcher = Pending,
      write_watcher_cancels = 0, read_watcher_cancels = 0, sent = [], sendalls = 0,
      iobuf = \<lparr>contents = [], pos = 0\<rparr>, calls = []\<rparr>"

text \<open>
  \<^verbatim>\<open>close\<close>: the test and the assignment of \<^verbatim>\<open>is_closed\<close> are made holding
  \<^verbatim>\<open>self.lock\<close>; the caller that found the flag unset cancels the two watchers and
  sets \<^verbatim>\<open>connected_event\<close>.
\<close>

definition close :: "connection \<Rightarrow> connection" where
  "close c =
     (if is_closed c then c
      else c\<lparr>is_closed := True,
             write_watcher := cancel (write_watcher c),
             write_watcher_cancels := write_watcher_cancels c + 1,
             read_watcher := cancel (read_watcher c),
             read_watcher_cancels := read_watcher_cancels c + 1,
             connected_event := True\<rparr>)"

text \<open>\<^verbatim>\<open>_push_chunk\<close> hands \<^verbatim>\<open>self._write_queue.put(chunk)\<close> to the loop.\<close>

definition push_chunk :: "connection \<Rightarrow> bytes \<Rightarrow> connection" where
  "push_chunk c chunk = c\<lparr>submitted_puts := submitted_puts c @ [chunk]\<rparr>"

text \<open>
  \<^verbatim>\<open>push\<close>: data longer than \<^verbatim>\<open>out_buffer_size\<close> goes out in slices
  \<^verbatim>\<open>data[i:i + buff_size]\<close> for \<^verbatim>\<open>i in range(0, len(data), buff_size)\<close>; \<^verbatim>\<open>range\<close>
  raises before the first slice is pushed when the size is zero.
\<close>

definition push :: "connection \<Rightarrow> bytes \<Rightarrow> exn + connection" where
  "push c data =
     (let buff_size = out_buffer_size c in
      if int (length data) > buff_size then
        (case py_range 0 (int (length data)) buff_size of
           Inl e \<Rightarrow> Inl e
         | Inr idxs \<Rightarrow>
             Inr (foldl (\<lambda>c' i. push_chunk c' (py_slice data i (i + buff_size))) c idxs))
      else Inr (push_chunk c data))"

subsection \<open>The write loop\<close>

text \<open>
  Modelled from the spec: \<^verbatim>\<open>defunct\<close> is a method of the base class
  \<^verbatim>\<open>cassandra.connection.Connection\<close>, which is not part of this module. The spec
  calls it the connection's failure path, to which the loops report an error; the model
  records the call and the error reported.
\<close>

definition defunct :: "socket_error \<Rightarrow> connection \<Rightarrow> connection" where
  "defunct err c = c\<lparr>calls := calls c @ [Defunct err]\<rparr>"

text \<open>
  The answer of the socket to one \<^verbatim>\<open>sock_sendall\<close>: the whole chunk went out, or the
  call raised a \<^verbatim>\<open>socket.error\<close> after some leading bytes of the chunk (possibly none)
  had gone out. The socket is the environment of the loop: the function \<open>sock\<close> below
  gives its answer to the \<open>k\<close>-th call.
\<close>

datatype send_result = SendOK | SendRaises socket_error nat

text \<open>Where a loop stands after a pass through its body.\<close>

datatype loop_state = Continue | Suspended | Returned

text \<open>
  One pass through the body of \<^verbatim>\<open>while True\<close> in \<^verbatim>\<open>handle_write\<close>. With an
  empty queue the coroutine stays suspended in \<^verbatim>\<open>self._write_queue.get()\<close>. An empty
  chunk is dequeued and not sent. A \<^verbatim>\<open>socket.error\<close> from the send is reported to
  \<^verbatim>\<open>defunct\<close> and the coroutine returns.
\<close>

definition handle_write_body ::
  "(nat \<Rightarrow> send_result) \<Rightarrow> connection \<Rightarrow> loop_state \<times> connection" where
  "handle_write_body sock c =
     (case write_queue c of
        [] \<Rightarrow> (Suspended, c)
      | next_msg # rest \<Rightarrow>
          (let c1 = c\<lparr>write_queue := rest, calls := calls c @ [Dequeue next_msg]\<rparr> in
           if next_msg \<noteq> [] then
             (let c2 = c1\<lparr>sendalls := sendalls c1 + 1, calls := calls c1 @ [Sendall next_msg]\<rparr> in
              case sock (sendalls c1) of
                SendOK \<Rightarrow> (Continue, c2\<lparr>sent := sent c2 @ next_msg\<rparr>)
              | SendRaises err n \<Rightarrow>
                  (Returned, defunct err (c2\<lparr>sent := sent c2 @ take n next_msg\<rparr>)))
           else (Continue, c1)))"

lemma handle_write_body_Continue:
  "handle_write_body sock c = (Continue, c') \<Longrightarrow> length (write_queue c') < length (write_queue c)"
  by (auto simp: handle_write_body_def Let_def split: list.splits if_splits send_result.splits)

text \<open>
  \<^verbatim>\<open>handle_write\<close>, run from a state of the queue until the coroutine suspends on
  the empty queue or returns.
\<close>

function handle_write :: "(nat \<Rightarrow> send_result) \<Rightarrow> connection \<Rightarrow> loop_state \<times> connection" where
  "handle_write sock c =
     (case handle_write_body sock c of
        (Continue, c') \<Rightarrow> handle_write sock c'
      | (Suspended, c') \<Rightarrow> (Suspended, c')
      | (Returned, c') \<Rightarrow> (Returned, c'))"
  by pat_completeness auto
termination
  by (relation "measure (\<lambda>(sock, c). length (write_queue c))")
    (auto dest: handle_write_body_Continue [OF sym])

declare handle_write.simps [simp del]

subsection \<open>The read loop\<close>

text \<open>
  The answer of the socket to one \<^verbatim>\<open>sock_recv\<close>: the bytes received (none when the
  peer has closed), or the \<^verbatim>\<open>socket.error\<close> raised.
\<close>

datatype recv_result = RecvData bytes | RecvRaises socket_error

text \<open>
  \<^verbatim>\<open>handle_read\<close>, run against the answers of the socket to its successive
  \<^verbatim>\<open>sock_recv\<close> calls; when they are used up the coroutine is suspended in
  \<^verbatim>\<open>sock_recv\<close>. \<^verbatim>\<open>process_io_buffer\<close> belongs to the base class and is a parameter
  here: what it does to \<^verbatim>\<open>_iobuf\<close>. The first \<^verbatim>\<open>except\<close> clause takes the two TLS
  conditions, the second every other \<^verbatim>\<open>socket.error\<close>.
\<close>

fun handle_read ::
  "(bytesio \<Rightarrow> bytesio) \<Rightarrow> recv_result list \<Rightarrow> connection \<Rightarrow> loop_state \<times> connection" where
  "handle_read process_io_buffer [] c = (Suspended, c)"
| "handle_read process_io_buffer (RecvData buf # rs) c =
     (let c1 = c\<lparr>iobuf := bytesio_write (iobuf c) buf, calls := calls c @ [Recv]\<rparr> in
      if buf \<noteq> [] \<and> bytesio_tell (iobuf c1) \<noteq> 0 then
        handle_read process_io_buffer rs
          (c1\<lparr>iobuf := process_io_buffer (iobuf c1), calls := calls c1 @ [ProcessIoBuffer]\<rparr>)
      else (Returned, close (c1\<lparr>calls := calls c1 @ [Close]\<rparr>)))"
| "handle_read process_io_buffer (RecvRaises err # rs) c =
     (let c1 = c\<lparr>calls := calls c @ [Recv]\<rparr> in
      if err = SSLWantWriteError \<or> err = SSLWantReadError then
        handle_read process_io_buffer rs (c1\<lparr>calls := calls c1 @ [Yield]\<rparr>)
      else (Returned, defunct err c1))"

subsection \<open>The loop thread and the callers\<close>

text \<open>
  What can happen on a connection while data is pushed: a caller thread calls
  \<^verbatim>\<open>push\<close> (an exception of \<^verbatim>\<open>push\<close> goes to the caller and leaves the connection
  as it was); the loop runs the oldest \<^verbatim>\<open>put\<close> it was handed, which appends the
  chunk to the unbounded queue; the loop resumes \<^verbatim>\<open>handle_write\<close> for one pass
  through its body, if the task is still scheduled. A task whose coroutine has returned
  is finished and is never resumed. A call of \<^verbatim>\<open>push\<close> is one action: the calls
  considered follow one another, as those of one caller thread do.
\<close>

datatype action = CallPush bytes | LoopRunsPut | LoopResumesWrite

definition finish_task :: "loop_state \<times> connection \<Rightarrow> connection" where
  "finish_task r = (case r of (Returned, c') \<Rightarrow> c'\<lparr>write_watcher := Finished\<rparr> | (_, c') \<Rightarrow> c')"

fun run_action :: "(nat \<Rightarrow> send_result) \<Rightarrow> connection \<Rightarrow> action \<Rightarrow> connection" where
  "run_action sock c (CallPush data) = (case push c data of Inl e \<Rightarrow> c | Inr c' \<Rightarrow> c')"
| "run_action sock c LoopRunsPut =
     (case submitted_puts c of
        [] \<Rightarrow> c
      | chunk # rest \<Rightarrow> c\<lparr>submitted_puts := rest, write_queue := write_queue c @ [chunk]\<rparr>)"
| "run_action sock c LoopResumesWrite =
     (if write_watcher c = Pending then finish_task (handle_write_body sock c) else c)"

definition run_actions :: "(nat \<Rightarrow> send_result) \<Rightarrow> connection \<Rightarrow> action list \<Rightarrow> connection" where
  "run_actions sock c acts = foldl (run_action sock) c acts"

text \<open>The data of the \<^verbatim>\<open>push\<close> calls of a schedule, in the order of the calls.\<close>

fun pushed :: "action list \<Rightarrow> bytes list" where
  "pushed [] = []"
| "pushed (CallPush data # acts) = data # pushed acts"
| "pushed (a # acts) = pushed acts"

text \<open>
  The loop left alone until nothing is ready: it runs every \<^verbatim>\<open>put\<close> it was handed,
  then \<^verbatim>\<open>handle_write\<close> until the coroutine suspends on the empty queue or returns.
\<close>

definition loop_settles :: "(nat \<Rightarrow> send_result) \<Rightarrow> connection \<Rightarrow> connection" where
  "loop_settles sock c =
     (let c1 = c\<lparr>submitted_puts := [], write_queue := write_queue c @ submitted_puts c\<rparr> in
      if write_watcher c1 = Pending then finish_task (handle_write sock c1) else c1)"

text \<open>
  Two threads in \<^verbatim>\<open>close\<close> at once. A call is at one of these points: about to take
  \<^verbatim>\<open>self.lock\<close>; past the locked block with the flag set by itself and about to cancel
  the write watcher, then the read watcher, then to set the event; returned from inside
  the locked block because the flag was set; returned at the end. One step of a call is
  atomic: the locked block by the lock, the others as single method calls.
\<close>

datatype close_pc =
  Entering | CancellingWrite | CancellingRead | SettingEvent | ReturnedEarly | ReturnedAtEnd

fun close_step :: "close_pc \<Rightarrow> connection \<Rightarrow> close_pc \<times> connection" where
  "close_step Entering c =
     (if is_closed c then (ReturnedEarly, c) else (CancellingWrite, c\<lparr>is_closed := True\<rparr>))"
| "close_step CancellingWrite c =
     (CancellingRead, c\<lparr>write_watcher := cancel (write_watcher c),
                         write_watcher_cancels := write_watcher_cancels c + 1\<rparr>)"
| "close_step CancellingRead c =
     (SettingEvent, c\<lparr>read_watcher := cancel (read_watcher c),
                       read_watcher_cancels := read_watcher_cancels c + 1\<rparr>)"
| "close_step SettingEvent c = (ReturnedAtEnd, c\<lparr>connected_event := True\<rparr>)"
| "close_step ReturnedEarly c = (ReturnedEarly, c)"
| "close_step ReturnedAtEnd c = (ReturnedAtEnd, c)"


text \<open>
  A schedule says which of the two calls makes the next step (\<open>True\<close>: the first).
\<close>

fun close_race ::
  "bool list \<Rightarrow> close_pc \<times> close_pc \<times> connection \<Rightarrow> close_pc \<times> close_pc \<times> connection" where
  "close_race [] s = s"
| "close_race (first # sched) (pa, pb, c) =
     (if first then (case close_step pa c of (pa', c') \<Rightarrow> close_race sched (pa', pb, c'))
      else (case close_step pb c of (pb', c') \<Rightarrow> close_race sched (pa, pb', c')))"




subsection \<open>The class state: loop, thread and timers\<close>

text \<open>
  A thread object: the loop whose \<^verbatim>\<open>run_forever\<close> is its target, and the process
  it was started in (a thread does not run in a forked child).
\<close>

record thread =
  target :: nat
  started_in :: nat

text \<open>
  The class attributes \<^verbatim>\<open>_loop\<close>, \<^verbatim>\<open>_pid\<close> and \<^verbatim>\<open>_loop_thread\<close> of
  \<^verbatim>\<open>AsyncioConnection\<close>, with the threads started so far, the delayed calls handed to a
  loop (loop, timeout, callback), the number of futures made (a future is named by its
  number), the futures on which \<^verbatim>\<open>cancel()\<close> was called, and the loops that have been
  closed (the module closes none itself; other code of the process may).
\<close>

record reactor =
  loop :: "nat option"
  pid :: nat
  loop_thread :: "thread option"
  threads_started :: "thread list"
  delayed_calls :: "(nat \<times> real \<times> nat) list"
  futures :: nat
  cancel_calls :: "nat list"
  closed_loops :: "nat list"

text \<open>The class as the import of the module leaves it, in the process \<open>p\<close>.\<close>

definition reactor_at_import :: "nat \<Rightarrow> reactor" where
  "reactor_at_import p =
     \<lparr>loop = None, pid = p, loop_thread = None, threads_started = [], delayed_calls = [],
      futures = 0, cancel_calls = [], closed_loops = []\<rparr>"

text \<open>
  \<^verbatim>\<open>initialize_reactor\<close>. \<open>getpid\<close> is what \<^verbatim>\<open>os.getpid()\<close> returns and
  \<open>get_event_loop\<close> what \<^verbatim>\<open>asyncio.get_event_loop()\<close> would return or raise in the
  calling thread. The result is the exception raised, if any, and the class state left.
\<close>

definition start_loop_thread :: "nat \<Rightarrow> nat \<Rightarrow> reactor \<Rightarrow> reactor" where
  "start_loop_thread getpid l r =
     (let t = \<lparr>target = l, started_in = getpid\<rparr>
      in r\<lparr>loop_thread := Some t, threads_started := threads_started r @ [t]\<rparr>)"

definition initialize_reactor :: "nat \<Rightarrow> exn + nat \<Rightarrow> reactor \<Rightarrow> exn option \<times> reactor" where
  "initialize_reactor getpid get_event_loop r =
     (let r1 = (if pid r \<noteq> getpid then r\<lparr>loop := None\<rparr> else r) in
      case loop r1 of
        None \<Rightarrow>
          (case get_event_loop of
             Inl e \<Rightarrow> (Some e, r1)
           | Inr l \<Rightarrow>
               (let r2 = r1\<lparr>loop := Some l\<rparr> in
                if loop_thread r2 = None then (None, start_loop_thread getpid l r2)
                else (None, r2)))
      | Some l \<Rightarrow>
          (if loop_thread r1 = None then (None, start_loop_thread getpid l r1)
           else (None, r1)))"

text \<open>
  \<^verbatim>\<open>AsyncioTimer\<close>: the object holds \<^verbatim>\<open>_handle\<close>, the future returned by
  \<^verbatim>\<open>asyncio.run_coroutine_threadsafe\<close>. That function calls
  \<^verbatim>\<open>loop.call_soon_threadsafe\<close>: with \<^verbatim>\<open>None\<close> for the loop that is an
  \<^verbatim>\<open>AttributeError\<close>, and on a loop that is closed the method raises a
  \<^verbatim>\<open>RuntimeError\<close>. In both cases nothing is scheduled and no timer is made.
\<close>

record asyncio_timer =
  handle :: nat

definition AsyncioTimer_init ::
  "real \<Rightarrow> nat \<Rightarrow> nat option \<Rightarrow> reactor \<Rightarrow> (exn + asyncio_timer) \<times> reactor" where
  "AsyncioTimer_init timeout callback lp r =
     (case lp of
        None \<Rightarrow> (Inl AttributeError, r)
      | Some l \<Rightarrow>
          (if l \<in> set (closed_loops r) then (Inl RuntimeError, r)
           else (Inr \<lparr>handle = futures r\<rparr>,
                 r\<lparr>delayed_calls := delayed_calls r @ [(l, timeout, callback)],
                   futures := futures r + 1\<rparr>)))"

definition create_timer :: "reactor \<Rightarrow> real \<Rightarrow> nat \<Rightarrow> (exn + asyncio_timer) \<times> reactor" where
  "create_timer r timeout callback = AsyncioTimer_init timeout callback (loop r) r"

definition AsyncioTimer_end :: "asyncio_timer \<Rightarrow> exn + real" where
  "AsyncioTimer_end self = Inl NotImplementedError"

definition AsyncioTimer_finish :: "asyncio_timer \<Rightarrow> exn + unit" where
  "AsyncioTimer_finish self = Inl NotImplementedError"

definition AsyncioTimer_cancel :: "asyncio_timer \<Rightarrow> reactor \<Rightarrow> (exn + unit) \<times> reactor" where
  "AsyncioTimer_cancel self r = (Inr (), r\<lparr>cancel_calls := cancel_calls r @ [handle self]\<rparr>)"

text \<open>
  The right operand of \<^verbatim>\<open>__lt__\<close>: a timer, or an object with no \<^verbatim>\<open>_handle\<close>
  attribute. Reading the attribute of such an object raises \<^verbatim>\<open>AttributeError\<close>.
\<close>

datatype pyobject = Timer asyncio_timer | PyNone | PyInt int | PyStr string

definition getattr_handle :: "pyobject \<Rightarrow> exn + nat" where
  "getattr_handle other = (case other of Timer t \<Rightarrow> Inr (handle t) | _ \<Rightarrow> Inl AttributeError)"

text \<open>
  \<^verbatim>\<open>__lt__\<close>. \<open>handle_lt\<close> is the comparison of the two futures, a parameter. An
  \<^verbatim>\<open>AttributeError\<close> from inside the \<^verbatim>\<open>try\<close> reaches \<^verbatim>\<open>raise NotImplemented\<close>;
  \<^verbatim>\<open>NotImplemented\<close> is not an exception, so that statement raises a \<^verbatim>\<open>TypeError\<close>.
\<close>

definition AsyncioTimer_lt ::
  "(nat \<Rightarrow> nat \<Rightarrow> exn + bool) \<Rightarrow> asyncio_timer \<Rightarrow> pyobject \<Rightarrow> exn + bool" where
  "AsyncioTimer_lt handle_lt self other =
     (case (case getattr_handle other of Inl e \<Rightarrow> Inl e | Inr h \<Rightarrow> handle_lt (handle self) h) of
        Inl e \<Rightarrow> (if e = AttributeError then Inl TypeError else Inl e)
      | Inr b \<Rightarrow> Inr b)"

section \<open>Properties\<close>

subsection \<open>Splitting a payload into chunks\<close>

text \<open>A slice that starts inside the data is the next \<open>n\<close> bytes, or what is left.\<close>

lemma py_slice_chunk:
  assumes "0 \<le> i" "0 < n"
  shows "py_slice xs i (i + n) = take (nat n) (drop (nat i) xs)"
proof (cases "i + n \<le> int (length xs)")
  case True
  then have "slice_bound (int (length xs)) i = i" "slice_bound (int (length xs)) (i + n) = i + n"
    using assms by (simp_all add: slice_bound_def)
  then show ?thesis by (simp add: py_slice_def)
next
  case False
  show ?thesis
  proof (cases "i \<le> int (length xs)")
    case True
    then have b: "slice_bound (int (length xs)) i = i"
      "slice_bound (int (length xs)) (i + n) = int (length xs)"
      using assms False by (simp_all add: slice_bound_def)
    have "length (drop (nat i) xs) \<le> nat (int (length xs) - i)" using assms by simp
    moreover have "length (drop (nat i) xs) \<le> nat n" using assms False by simp
    ultimately show ?thesis by (simp add: py_slice_def b)
  next
    case False
    then have "slice_bound (int (length xs)) i = int (length xs)"
      using assms by (simp add: slice_bound_def)
    moreover from False have "drop (nat i) xs = []" by simp
    ultimately show ?thesis by (simp add: py_slice_def)
  qed
qed

lemma concat_slices:
  "0 < n \<Longrightarrow> 0 \<le> i \<Longrightarrow>
   concat (map (\<lambda>i. py_slice xs i (i + n)) (range_up i (int (length xs)) n)) = drop (nat i) xs"
proof (induction i "int (length xs)" n rule: range_up.induct)
  case (1 i step)
  show ?case
  proof (cases "i < int (length xs)")
    case True
    have d: "drop (nat (i + step)) xs = drop (nat step) (drop (nat i) xs)"
      using "1.prems" by (simp add: nat_add_distrib add.commute)
    have ih: "concat (map (\<lambda>i. py_slice xs i (i + step)) (range_up (i + step) (int (length xs)) step))
        = drop (nat (i + step)) xs"
      using 1 True by simp
    have "range_up i (int (length xs)) step = i # range_up (i + step) (int (length xs)) step"
      using True "1.prems" by (subst range_up.simps) simp
    then show ?thesis
      using "1.prems" by (simp only: list.map concat.simps ih d py_slice_chunk append_take_drop_id)
  next
    case False
    then show ?thesis using "1.prems" by (subst range_up.simps) simp
  qed
qed

lemma length_slices:
  "0 < n \<Longrightarrow> 0 \<le> i \<Longrightarrow> ch \<in> set (map (\<lambda>i. py_slice xs i (i + n)) (range_up i (int (length xs)) n)) \<Longrightarrow> int (length ch) \<le> n"
proof (induction i "int (length xs)" n rule: range_up.induct)
  case (1 i step)
  show ?case
  proof (cases "i < int (length xs)")
    case True
    have r: "range_up i (int (length xs)) step = i # range_up (i + step) (int (length xs)) step"
      using True "1.prems" by (subst range_up.simps) simp
    from "1.prems"(3) have "ch = py_slice xs i (i + step) \<or>
       ch \<in> set (map (\<lambda>i. py_slice xs i (i + step)) (range_up (i + step) (int (length xs)) step))"
      by (simp only: r list.map set_simps insert_iff)
    then show ?thesis
    proof
      assume "ch = py_slice xs i (i + step)"
      then show ?thesis using "1.prems" by (simp add: py_slice_chunk)
    next
      assume "ch \<in> set (map (\<lambda>i. py_slice xs i (i + step)) (range_up (i + step) (int (length xs)) step))"
      then show ?thesis using 1 True by simp
    qed
  next
    case False
    then have "range_up i (int (length xs)) step = []" by (subst range_up.simps) simp
    then show ?thesis using "1.prems" by simp
  qed
qed

lemma foldl_push_chunk:
  "foldl (\<lambda>c' i. push_chunk c' (f i)) c idxs = c\<lparr>submitted_puts := submitted_puts c @ map f idxs\<rparr>"
  by (induction idxs arbitrary: c) (simp_all add: push_chunk_def)


lemma push_positive:
  assumes "0 < out_buffer_size c"
  shows "\<exists>chunks. push c data = Inr (c\<lparr>submitted_puts := submitted_puts c @ chunks\<rparr>) \<and>
           concat chunks = data \<and> (\<forall>ch \<in> set chunks. int (length ch) \<le> out_buffer_size c)"
proof (cases "int (length data) > out_buffer_size c")
  case True
  let ?n = "out_buffer_size c"
  let ?chunks = "map (\<lambda>i. py_slice data i (i + ?n)) (range_up 0 (int (length data)) ?n)"
  have "push c data = Inr (c\<lparr>submitted_puts := submitted_puts c @ ?chunks\<rparr>)"
    using True assms by (simp add: push_def py_range_def foldl_push_chunk Let_def)
  moreover have "concat ?chunks = data"
    using concat_slices [OF assms, of 0 data] by simp
  moreover have "\<forall>ch \<in> set ?chunks. int (length ch) \<le> ?n"
    using length_slices [OF assms, of 0 _ data] by blast
  ultimately show ?thesis by blast
next
  case False
  then have "push c data = Inr (c\<lparr>submitted_puts := submitted_puts c @ [data]\<rparr>)"
    by (simp add: push_def push_chunk_def)
  moreover have "\<forall>ch \<in> set [data]. int (length ch) \<le> out_buffer_size c"
    using False by simp
  ultimately show ?thesis by (metis concat.simps(1,2) append_Nil2)
qed

lemma range_up_0_5_4: "range_up 0 5 4 = [0, 4]"
  by (simp add: range_up.simps)

lemma push_example_A:
  "push (new_connection 4) ''AAAAA'' = Inr ((new_connection 4)\<lparr>submitted_puts := [''AAAA'', ''A'']\<rparr>)"
  by (simp add: push_def py_range_def range_up_0_5_4 push_chunk_def py_slice_def slice_bound_def
      new_connection_def)

lemma push_example_B:
  "push ((new_connection 4)\<lparr>submitted_puts := [''AAAA'', ''A'']\<rparr>) ''BBBBB'' =
     Inr ((new_connection 4)\<lparr>submitted_puts := [''AAAA'', ''A'', ''BBBB'', ''B'']\<rparr>)"
  by (simp add: push_def py_range_def range_up_0_5_4 push_chunk_def py_slice_def slice_bound_def
      new_connection_def)

lemma puts_example:
  "write_queue (run_actions sock ((new_connection 4)\<lparr>submitted_puts := [''AAAA'', ''A'', ''BBBB'', ''B'']\<rparr>)
      [LoopRunsPut, LoopRunsPut, LoopRunsPut, LoopRunsPut]) = [''AAAA'', ''A'', ''BBBB'', ''B'']"
  by (simp add: run_actions_def new_connection_def)

text \<open>
  C1. On a connection whose \<^verbatim>\<open>out_buffer_size\<close> is positive, \<^verbatim>\<open>push(data)\<close> raises
  nothing and hands the loop a sequence of chunks, after those handed before and in
  order, whose concatenation is \<open>data\<close> and each of which is at most
  \<^verbatim>\<open>out_buffer_size\<close> bytes long. With size 4, pushing five \<open>A\<close> and then five \<open>B\<close> hands
  over \<open>AAAA\<close>, \<open>A\<close>, \<open>BBBB\<close>, \<open>B\<close>, and the queue holds exactly these, in this order,
  once the loop has run the four puts.
\<close>

theorem push_chunks:
  "0 < out_buffer_size c \<Longrightarrow>
     (\<exists>chunks. push c data = Inr (c\<lparr>submitted_puts := submitted_puts c @ chunks\<rparr>) \<and>
        concat chunks = data \<and> (\<forall>ch \<in> set chunks. int (length ch) \<le> out_buffer_size c)) \<and>
     (\<exists>c1 c2. push (new_connection 4) ''AAAAA'' = Inr c1 \<and> push c1 ''BBBBB'' = Inr c2 \<and>
        submitted_puts c2 = [''AAAA'', ''A'', ''BBBB'', ''B''] \<and>
        write_queue (run_actions sock c2 [LoopRunsPut, LoopRunsPut, LoopRunsPut, LoopRunsPut])
          = [''AAAA'', ''A'', ''BBBB'', ''B''])"
proof (intro conjI)
  assume "0 < out_buffer_size c"
  then show "\<exists>chunks. push c data = Inr (c\<lparr>submitted_puts := submitted_puts c @ chunks\<rparr>) \<and>
        concat chunks = data \<and> (\<forall>ch \<in> set chunks. int (length ch) \<le> out_buffer_size c)"
    by (rule push_positive)
next
  show "\<exists>c1 c2. push (new_connection 4) ''AAAAA'' = Inr c1 \<and> push c1 ''BBBBB'' = Inr c2 \<and>
        submitted_puts c2 = [''AAAA'', ''A'', ''BBBB'', ''B''] \<and>
        write_queue (run_actions sock c2 [LoopRunsPut, LoopRunsPut, LoopRunsPut, LoopRunsPut])
          = [''AAAA'', ''A'', ''BBBB'', ''B'']"
    using push_example_A push_example_B puts_example [of sock] by (intro exI conjI) simp_all
qed

text \<open>The theorem at the first push of the example.\<close>

theorem push_chunks_witness:
  "0 < out_buffer_size (new_connection 4) \<and>
   (\<exists>chunks. push (new_connection 4) ''AAAAA''
        = Inr ((new_connection 4)\<lparr>submitted_puts := submitted_puts (new_connection 4) @ chunks\<rparr>) \<and>
      concat chunks = ''AAAAA'' \<and> (\<forall>ch \<in> set chunks. int (length ch) \<le> 4))"
proof -
  have h: "0 < out_buffer_size (new_connection 4)" by (simp add: new_connection_def)
  have "out_buffer_size (new_connection 4) = 4" by (simp add: new_connection_def)
  then show ?thesis using h push_chunks [OF h, of "''AAAAA''"] by simp
qed

text \<open>
  The size has to be positive: with size zero \<^verbatim>\<open>range\<close> raises, and with a negative
  size the range is empty and nothing is handed over.
\<close>

lemma push_zero_size: "push (new_connection 0) ''A'' = Inl ValueError"
  by (simp add: push_def py_range_def new_connection_def)

lemma push_negative_size:
  "push (new_connection (- 1)) ''A'' = Inr (new_connection (- 1))"
  by (simp add: push_def py_range_def new_connection_def range_down.simps)

subsection \<open>The write loop\<close>

text \<open>
  The four ways through the body of the loop.
\<close>

lemma handle_write_body_empty:
  "write_queue c = [] \<Longrightarrow> handle_write_body sock c = (Suspended, c)"
  by (simp add: handle_write_body_def)

lemma handle_write_body_skip:
  "write_queue c = [] # rest \<Longrightarrow>
   handle_write_body sock c = (Continue, c\<lparr>write_queue := rest, calls := calls c @ [Dequeue []]\<rparr>)"
  by (simp add: handle_write_body_def)

lemma handle_write_body_sent:
  "write_queue c = m # rest \<Longrightarrow> m \<noteq> [] \<Longrightarrow> sock (sendalls c) = SendOK \<Longrightarrow>
   handle_write_body sock c =
     (Continue, c\<lparr>write_queue := rest, calls := calls c @ [Dequeue m, Sendall m],
                   sendalls := sendalls c + 1, sent := sent c @ m\<rparr>)"
  by (simp add: handle_write_body_def)

lemma handle_write_body_raised:
  "write_queue c = m # rest \<Longrightarrow> m \<noteq> [] \<Longrightarrow> sock (sendalls c) = SendRaises err n \<Longrightarrow>
   handle_write_body sock c =
     (Returned, c\<lparr>write_queue := rest, calls := calls c @ [Dequeue m, Sendall m, Defunct err],
                   sendalls := sendalls c + 1, sent := sent c @ take n m\<rparr>)"
  by (simp add: handle_write_body_def defunct_def)

text \<open>
  What a pass through the body has done, by its outcome.
\<close>

lemma handle_write_body_Suspended:
  assumes "handle_write_body sock c = (Suspended, c')"
  shows "c' = c \<and> write_queue c = []"
proof (cases "write_queue c")
  case Nil
  then show ?thesis using assms handle_write_body_empty [OF Nil, of sock] by simp
next
  case (Cons m rest)
  show ?thesis
  proof (cases "m = []")
    case True
    then show ?thesis using assms handle_write_body_skip [of c rest sock] Cons by simp
  next
    case False
    then show ?thesis
      using assms handle_write_body_sent [OF Cons False, of sock]
        handle_write_body_raised [OF Cons False, of sock]
      by (cases "sock (sendalls c)") simp_all
  qed
qed

lemma handle_write_body_Continue_facts:
  assumes "handle_write_body sock c = (Continue, c')"
  shows "\<exists>m. write_queue c = m # write_queue c' \<and> sent c' = sent c @ m \<and>
           submitted_puts c' = submitted_puts c \<and> write_watcher c' = write_watcher c \<and>
           out_buffer_size c' = out_buffer_size c \<and>
           (if m = [] then sendalls c' = sendalls c \<and> calls c' = calls c @ [Dequeue m]
            else sendalls c' = sendalls c + 1 \<and> sock (sendalls c) = SendOK \<and>
                 calls c' = calls c @ [Dequeue m, Sendall m])"
proof (cases "write_queue c")
  case Nil
  then show ?thesis using assms handle_write_body_empty [OF Nil, of sock] by simp
next
  case (Cons m rest)
  show ?thesis
  proof (cases "m = []")
    case True
    then have "c' = c\<lparr>write_queue := rest, calls := calls c @ [Dequeue []]\<rparr>"
      using assms handle_write_body_skip [of c rest sock] Cons by simp
    then show ?thesis using Cons True by simp
  next
    case False
    show ?thesis
    proof (cases "sock (sendalls c)")
      case SendOK
      then have "c' = c\<lparr>write_queue := rest, calls := calls c @ [Dequeue m, Sendall m],
                   sendalls := sendalls c + 1, sent := sent c @ m\<rparr>"
        using assms handle_write_body_sent [OF Cons False, of sock] by simp
      then show ?thesis using Cons False SendOK by simp
    next
      case (SendRaises err n)
      then show ?thesis using assms handle_write_body_raised [OF Cons False, of sock] by simp
    qed
  qed
qed

lemma handle_write_body_Returned:
  assumes "handle_write_body sock c = (Returned, c')"
  shows "\<exists>m err n. write_queue c = m # write_queue c' \<and> m \<noteq> [] \<and>
           sock (sendalls c) = SendRaises err n \<and> sendalls c' = sendalls c + 1 \<and>
           calls c' = calls c @ [Dequeue m, Sendall m, Defunct err] \<and>
           sent c' = sent c @ take n m \<and>
           submitted_puts c' = submitted_puts c \<and> write_watcher c' = write_watcher c \<and>
           out_buffer_size c' = out_buffer_size c"
proof (cases "write_queue c")
  case Nil
  then show ?thesis using assms handle_write_body_empty [OF Nil, of sock] by simp
next
  case (Cons m rest)
  show ?thesis
  proof (cases "m = []")
    case True
    then show ?thesis using assms handle_write_body_skip [of c rest sock] Cons by simp
  next
    case False
    show ?thesis
    proof (cases "sock (sendalls c)")
      case SendOK
      then show ?thesis using assms handle_write_body_sent [OF Cons False, of sock] by simp
    next
      case (SendRaises err n)
      then have "c' = c\<lparr>write_queue := rest, calls := calls c @ [Dequeue m, Sendall m, Defunct err],
                   sendalls := sendalls c + 1, sent := sent c @ take n m\<rparr>"
        using assms handle_write_body_raised [OF Cons False, of sock] by simp
      then show ?thesis using Cons False SendRaises by simp
    qed
  qed
qed

lemma handle_write_unfold:
  "handle_write_body sock c = (Continue, c1) \<Longrightarrow> handle_write sock c = handle_write sock c1"
  "handle_write_body sock c = (Suspended, c1) \<Longrightarrow> handle_write sock c = (Suspended, c1)"
  "handle_write_body sock c = (Returned, c1) \<Longrightarrow> handle_write sock c = (Returned, c1)"
  by (simp_all add: handle_write.simps [of sock c])

text \<open>
  A send that raises is the last thing the loop does before the one call of
  \<^verbatim>\<open>defunct\<close> with that error.
\<close>

lemma handle_write_error:
  "handle_write sock c = (st, c') \<Longrightarrow> sendalls c \<le> k \<Longrightarrow> k < sendalls c' \<Longrightarrow>
   sock k = SendRaises err n \<Longrightarrow>
   st = Returned \<and> sendalls c' = k + 1 \<and>
   (\<exists>evs m. calls c' = calls c @ evs @ [Sendall m, Defunct err] \<and> (\<forall>e. Defunct e \<notin> set evs))"
proof (induction sock c rule: handle_write.induct)
  case (1 sock c)
  obtain s1 c1 where b: "handle_write_body sock c = (s1, c1)" by force
  show ?case
  proof (cases s1)
    case Continue
    note b' = b [unfolded Continue]
    from handle_write_body_Continue_facts [OF b'] obtain m where
      m: "if m = [] then sendalls c1 = sendalls c \<and> calls c1 = calls c @ [Dequeue m]
            else sendalls c1 = sendalls c + 1 \<and> sock (sendalls c) = SendOK \<and>
                 calls c1 = calls c @ [Dequeue m, Sendall m]" by blast
    have hw: "handle_write sock c1 = (st, c')"
      using handle_write_unfold(1) [OF b'] "1.prems"(1) by simp
    have k: "sendalls c1 \<le> k"
    proof (cases "m = []")
      case True
      then show ?thesis using m "1.prems"(2) by simp
    next
      case False
      then have "sendalls c1 = sendalls c + 1" "sock (sendalls c) = SendOK" using m by simp_all
      then have "k \<noteq> sendalls c" using "1.prems"(4) by auto
      then show ?thesis using \<open>sendalls c1 = sendalls c + 1\<close> "1.prems"(2) by simp
    qed
    from "1.IH" [OF b [symmetric] Continue hw k "1.prems"(3,4)]
    obtain evs m' where r: "st = Returned" "sendalls c' = k + 1"
      "calls c' = calls c1 @ evs @ [Sendall m', Defunct err]" "\<forall>e. Defunct e \<notin> set evs"
      by blast
    obtain evs1 where e1: "calls c1 = calls c @ evs1" "\<forall>e. Defunct e \<notin> set evs1"
      using m by (cases "m = []") auto
    have "calls c' = calls c @ (evs1 @ evs) @ [Sendall m', Defunct err]"
      using r(3) e1(1) by simp
    moreover have "\<forall>e. Defunct e \<notin> set (evs1 @ evs)" using r(4) e1(2) by simp
    ultimately show ?thesis using r(1,2) by blast
  next
    case Suspended
    note b' = b [unfolded Suspended]
    have "c' = c" using handle_write_unfold(2) [OF b'] handle_write_body_Suspended [OF b'] "1.prems"(1)
      by simp
    then show ?thesis using "1.prems"(2,3) by simp
  next
    case Returned
    note b' = b [unfolded Returned]
    have hw: "st = Returned" "c' = c1" using handle_write_unfold(3) [OF b'] "1.prems"(1) by simp_all
    from handle_write_body_Returned [OF b'] obtain m err' n' where
      f: "sock (sendalls c) = SendRaises err' n'" "sendalls c1 = sendalls c + 1"
         "calls c1 = calls c @ [Dequeue m, Sendall m, Defunct err']" by blast
    have "k = sendalls c" using "1.prems"(2,3) f(2) hw(2) by simp
    then have "err' = err" using f(1) "1.prems"(4) by simp
    then have "calls c' = calls c @ [Dequeue m] @ [Sendall m, Defunct err]" using f(3) hw(2) by simp
    moreover have "\<forall>e. Defunct e \<notin> set [Dequeue m]" by simp
    ultimately show ?thesis using hw(1) f(2) \<open>k = sendalls c\<close> hw(2) by blast
  qed
qed

text \<open>
  \<^verbatim>\<open>push\<close> only hands chunks to the loop.
\<close>

lemma push_result:
  assumes "push c data = Inr c'"
  shows "\<exists>chunks. c' = c\<lparr>submitted_puts := submitted_puts c @ chunks\<rparr>"
proof (cases "int (length data) > out_buffer_size c")
  case True
  then obtain idxs where "py_range 0 (int (length data)) (out_buffer_size c) = Inr idxs"
    and "c' = foldl (\<lambda>c' i. push_chunk c' (py_slice data i (i + out_buffer_size c))) c idxs"
    using assms by (auto simp: push_def Let_def split: sum.splits)
  then show ?thesis unfolding foldl_push_chunk by blast
next
  case False
  then have "c' = c\<lparr>submitted_puts := submitted_puts c @ [data]\<rparr>"
    using assms by (simp add: push_def push_chunk_def)
  then show ?thesis by blast
qed

lemma push_fields:
  assumes "push c data = Inr c'"
  shows "calls c' = calls c \<and> sent c' = sent c \<and> write_watcher c' = write_watcher c \<and>
     write_queue c' = write_queue c \<and> out_buffer_size c' = out_buffer_size c \<and> sendalls c' = sendalls c"
  using push_result [OF assms] by auto

text \<open>
  Once the write task is over, nothing is dequeued or sent any more.
\<close>

lemma run_action_finished:
  assumes "write_watcher c \<noteq> Pending"
  shows "write_watcher (run_action sock c a) = write_watcher c \<and>
         calls (run_action sock c a) = calls c \<and> sent (run_action sock c a) = sent c \<and>
         sendalls (run_action sock c a) = sendalls c"
proof (cases a)
  case (CallPush data)
  then show ?thesis using push_fields [of c data] by (cases "push c data") auto
next
  case LoopRunsPut
  then show ?thesis by (simp split: list.splits)
next
  case LoopResumesWrite
  then show ?thesis using assms by simp
qed

lemma run_actions_finished:
  "write_watcher c \<noteq> Pending \<Longrightarrow>
     write_watcher (run_actions sock c acts) = write_watcher c \<and>
     calls (run_actions sock c acts) = calls c \<and> sent (run_actions sock c acts) = sent c \<and>
     sendalls (run_actions sock c acts) = sendalls c"
  unfolding run_actions_def
proof (induction acts arbitrary: c)
  case Nil
  then show ?case by simp
next
  case (Cons a acts)
  from run_action_finished [OF Cons.prems, of sock a]
  have s: "write_watcher (run_action sock c a) = write_watcher c"
    "calls (run_action sock c a) = calls c" "sent (run_action sock c a) = sent c"
    "sendalls (run_action sock c a) = sendalls c" by simp_all
  then have "write_watcher (run_action sock c a) \<noteq> Pending" using Cons.prems by simp
  from Cons.IH [OF this] s show ?case by simp
qed

text \<open>
  C5. When a \<^verbatim>\<open>sock_sendall\<close> made by a run of the write loop raises a socket error,
  the coroutine returns (no exception leaves it), that send is the last one made, and
  the log of the run ends with that send followed by one call of \<^verbatim>\<open>defunct\<close> with
  that error, the only call of \<^verbatim>\<open>defunct\<close> in the run. The task is then finished:
  whatever is pushed or scheduled afterwards, nothing more is dequeued or sent.
\<close>

theorem send_error_defuncts_once:
  assumes "handle_write sock c = (st, c')"
    and "sendalls c \<le> k" and "k < sendalls c'" and "sock k = SendRaises err n"
  shows "st = Returned \<and> sendalls c' = k + 1 \<and>
     (\<exists>evs m. calls c' = calls c @ evs @ [Sendall m, Defunct err] \<and> (\<forall>e. Defunct e \<notin> set evs)) \<and>
     write_watcher (finish_task (st, c')) = Finished \<and>
     calls (run_actions sock (finish_task (st, c')) acts) = calls c' \<and>
     sendalls (run_actions sock (finish_task (st, c')) acts) = sendalls c' \<and>
     sent (run_actions sock (finish_task (st, c')) acts) = sent c'"
proof -
  note e = handle_write_error [OF assms]
  then have st: "st = Returned" by simp
  have f: "write_watcher (finish_task (st, c')) = Finished" "calls (finish_task (st, c')) = calls c'"
    "sendalls (finish_task (st, c')) = sendalls c'" "sent (finish_task (st, c')) = sent c'"
    by (simp_all add: st finish_task_def)
  then have "write_watcher (finish_task (st, c')) \<noteq> Pending" by simp
  from run_actions_finished [OF this, of sock acts] f e show ?thesis by simp
qed

text \<open>
  The theorem on a queue of four chunks where the second send raises after one byte.
\<close>

theorem send_error_defuncts_once_witness:
  "handle_write (\<lambda>k. if k = 1 then SendRaises (OtherSocketError 32) 1 else SendOK)
      ((new_connection 4)\<lparr>write_queue := [''ab'', [], ''cd'', ''ef'']\<rparr>)
     = (Returned, (new_connection 4)\<lparr>write_queue := [''ef''], sent := ''abc'', sendalls := 2,
          calls := [Dequeue ''ab'', Sendall ''ab'', Dequeue [], Dequeue ''cd'', Sendall ''cd'',
                    Defunct (OtherSocketError 32)]\<rparr>) \<and>
   sendalls ((new_connection 4)\<lparr>write_queue := [''ab'', [], ''cd'', ''ef'']\<rparr>) \<le> 1 \<and>
   calls (run_actions (\<lambda>k. if k = 1 then SendRaises (OtherSocketError 32) 1 else SendOK)
      (finish_task (Returned, (new_connection 4)\<lparr>write_queue := [''ef''], sent := ''abc'',
          sendalls := 2,
          calls := [Dequeue ''ab'', Sendall ''ab'', Dequeue [], Dequeue ''cd'', Sendall ''cd'',
                    Defunct (OtherSocketError 32)]\<rparr>))
      [CallPush ''gh'', LoopRunsPut, LoopResumesWrite])
     = [Dequeue ''ab'', Sendall ''ab'', Dequeue [], Dequeue ''cd'', Sendall ''cd'',
        Defunct (OtherSocketError 32)] \<and>
   sent (run_actions (\<lambda>k. if k = 1 then SendRaises (OtherSocketError 32) 1 else SendOK)
      (finish_task (Returned, (new_connection 4)\<lparr>write_queue := [''ef''], sent := ''abc'',
          sendalls := 2,
          calls := [Dequeue ''ab'', Sendall ''ab'', Dequeue [], Dequeue ''cd'', Sendall ''cd'',
                    Defunct (OtherSocketError 32)]\<rparr>))
      [CallPush ''gh'', LoopRunsPut, LoopResumesWrite])
     = ''abc''"
proof -
  let ?sock = "\<lambda>k::nat. if k = 1 then SendRaises (OtherSocketError 32) 1 else SendOK"
  let ?c = "(new_connection 4)\<lparr>write_queue := [''ab'', [], ''cd'', ''ef'']\<rparr>"
  let ?c' = "(new_connection 4)\<lparr>write_queue := [''ef''], sent := ''abc'', sendalls := 2,
          calls := [Dequeue ''ab'', Sendall ''ab'', Dequeue [], Dequeue ''cd'', Sendall ''cd'',
                    Defunct (OtherSocketError 32)]\<rparr>"
  have run: "handle_write ?sock ?c = (Returned, ?c')" by code_simp
  have lo: "sendalls ?c \<le> 1" by (simp add: new_connection_def)
  have hi: "1 < sendalls ?c'" by simp
  have err: "?sock 1 = SendRaises (OtherSocketError 32) 1" by simp
  show ?thesis
    using run lo
      send_error_defuncts_once [OF run lo hi err, of "[CallPush ''gh'', LoopRunsPut, LoopResumesWrite]"]
    by simp
qed

subsection \<open>The order of the bytes on the socket\<close>

lemma pushed_Cons: "concat (pushed (a # acts)) = concat (pushed [a]) @ concat (pushed acts)"
  by (cases a) simp_all

lemma run_action_out_buffer_size:
  "out_buffer_size (run_action sock c a) = out_buffer_size c"
proof (cases a)
  case (CallPush data)
  then show ?thesis using push_fields [of c data] by (cases "push c data") auto
next
  case LoopRunsPut
  then show ?thesis by (simp split: list.splits)
next
  case LoopResumesWrite
  obtain s1 c1 where b: "handle_write_body sock c = (s1, c1)" by force
  have "out_buffer_size c1 = out_buffer_size c"
  proof (cases s1)
    case Continue
    then show ?thesis using handle_write_body_Continue_facts [of sock c c1] b by auto
  next
    case Suspended
    then show ?thesis using handle_write_body_Suspended [of sock c c1] b by auto
  next
    case Returned
    then show ?thesis using handle_write_body_Returned [of sock c c1] b by auto
  qed
  then show ?thesis using LoopResumesWrite b by (cases s1) (simp_all add: finish_task_def)
qed

text \<open>
  One action keeps the stream (the bytes sent, then the queue, then the puts not yet
  run) and appends what is pushed to it, unless a send raises: then the task is over and
  what was sent is a prefix of the stream.
\<close>

lemma run_action_pending:
  assumes "0 < out_buffer_size c" and "write_watcher c = Pending"
  shows "(write_watcher (run_action sock c a) = Pending \<and>
          sent (run_action sock c a) @ concat (write_queue (run_action sock c a))
              @ concat (submitted_puts (run_action sock c a))
            = sent c @ concat (write_queue c) @ concat (submitted_puts c) @ concat (pushed [a])) \<or>
         (write_watcher (run_action sock c a) = Finished \<and>
          (\<exists>k. sock k \<noteq> SendOK) \<and>
          prefix (sent (run_action sock c a)) (sent c @ concat (write_queue c)))"
proof (cases a)
  case (CallPush data)
  from push_positive [OF assms(1), of data] obtain chunks where
    "push c data = Inr (c\<lparr>submitted_puts := submitted_puts c @ chunks\<rparr>)" "concat chunks = data"
    by blast
  then show ?thesis using CallPush assms(2) by simp
next
  case LoopRunsPut
  then show ?thesis using assms(2) by (simp split: list.splits)
next
  case LoopResumesWrite
  obtain s1 c1 where b: "handle_write_body sock c = (s1, c1)" by force
  show ?thesis
  proof (cases s1)
    case Continue
    from handle_write_body_Continue_facts [OF b [unfolded Continue]] obtain m where
      "write_queue c = m # write_queue c1" "sent c1 = sent c @ m"
      "submitted_puts c1 = submitted_puts c" "write_watcher c1 = write_watcher c" by blast
    then show ?thesis using LoopResumesWrite b Continue assms(2) by (simp add: finish_task_def)
  next
    case Suspended
    from handle_write_body_Suspended [OF b [unfolded Suspended]] have "c1 = c" by simp
    then show ?thesis using LoopResumesWrite b Suspended assms(2) by (simp add: finish_task_def)
  next
    case Returned
    from handle_write_body_Returned [OF b [unfolded Returned]] obtain m err n where
      f: "write_queue c = m # write_queue c1" "sent c1 = sent c @ take n m"
         "sock (sendalls c) = SendRaises err n" by blast
    have "prefix (take n m) (m @ concat (write_queue c1))"
      by (metis append_take_drop_id prefixI append.assoc)
    then have "prefix (sent c1) (sent c @ concat (write_queue c))" using f(1,2) by simp
    moreover have "\<exists>k. sock k \<noteq> SendOK" using f(3) by (metis send_result.distinct(1))
    ultimately show ?thesis using LoopResumesWrite b Returned assms(2) by (simp add: finish_task_def)
  qed
qed

lemma run_actions_Cons: "run_actions sock c (a # acts) = run_actions sock (run_action sock c a) acts"
  by (simp add: run_actions_def)

lemma run_actions_order:
  "0 < out_buffer_size c \<Longrightarrow>
   prefix (sent (run_actions sock c acts))
     (sent c @ concat (write_queue c) @ concat (submitted_puts c) @ concat (pushed acts))"
proof (induction acts arbitrary: c)
  case Nil
  then show ?case by (simp add: run_actions_def)
next
  case (Cons a acts)
  let ?c1 = "run_action sock c a"
  let ?stream = "sent c @ concat (write_queue c) @ concat (submitted_puts c)"
  have obs: "0 < out_buffer_size ?c1" using Cons.prems by (simp add: run_action_out_buffer_size)
  show ?case
  proof (cases "write_watcher c = Pending")
    case False
    from run_actions_finished [OF False, of sock "a # acts"]
    have "sent (run_actions sock c (a # acts)) = sent c" by simp
    then show ?thesis by simp
  next
    case True
    from run_action_pending [OF Cons.prems True, of sock a]
    show ?thesis
    proof
      assume p: "write_watcher ?c1 = Pending \<and>
          sent ?c1 @ concat (write_queue ?c1) @ concat (submitted_puts ?c1)
            = sent c @ concat (write_queue c) @ concat (submitted_puts c) @ concat (pushed [a])"
      have "prefix (sent (run_actions sock ?c1 acts))
         ((sent ?c1 @ concat (write_queue ?c1) @ concat (submitted_puts ?c1)) @ concat (pushed acts))"
        using Cons.IH [OF obs] by simp
      then have "prefix (sent (run_actions sock ?c1 acts))
         ((sent c @ concat (write_queue c) @ concat (submitted_puts c) @ concat (pushed [a]))
            @ concat (pushed acts))"
        using p by simp
      then show ?thesis by (simp add: run_actions_Cons pushed_Cons [of a acts])
    next
      assume f: "write_watcher ?c1 = Finished \<and> (\<exists>k. sock k \<noteq> SendOK) \<and>
          prefix (sent ?c1) (sent c @ concat (write_queue c))"
      then have "write_watcher ?c1 \<noteq> Pending" by simp
      from run_actions_finished [OF this, of sock acts]
      have "sent (run_actions sock c (a # acts)) = sent ?c1" by (simp add: run_actions_Cons)
      moreover have "prefix (sent c @ concat (write_queue c))
          (sent c @ concat (write_queue c) @ concat (submitted_puts c) @ concat (pushed (a # acts)))"
        by simp
      ultimately show ?thesis using f by (metis prefix_order.trans)
    qed
  qed
qed

lemma run_actions_no_failure:
  "0 < out_buffer_size c \<Longrightarrow> write_watcher c = Pending \<Longrightarrow> \<forall>k. sock k = SendOK \<Longrightarrow>
   write_watcher (run_actions sock c acts) = Pending \<and>
   sent (run_actions sock c acts) @ concat (write_queue (run_actions sock c acts))
       @ concat (submitted_puts (run_actions sock c acts))
     = sent c @ concat (write_queue c) @ concat (submitted_puts c) @ concat (pushed acts)"
proof (induction acts arbitrary: c)
  case Nil
  then show ?case by (simp add: run_actions_def)
next
  case (Cons a acts)
  let ?c1 = "run_action sock c a"
  have obs: "0 < out_buffer_size ?c1" using Cons.prems by (simp add: run_action_out_buffer_size)
  from run_action_pending [OF Cons.prems(1,2), of sock a] Cons.prems(3)
  have p: "write_watcher ?c1 = Pending"
    "sent ?c1 @ concat (write_queue ?c1) @ concat (submitted_puts ?c1)
       = sent c @ concat (write_queue c) @ concat (submitted_puts c) @ concat (pushed [a])"
    by auto
  from Cons.IH [OF obs p(1) Cons.prems(3)] p(2)
  show ?case by (simp add: run_actions_Cons pushed_Cons [of a acts])
qed

lemma handle_write_no_failure:
  "\<forall>k. sock k = SendOK \<Longrightarrow>
   \<exists>c'. handle_write sock c = (Suspended, c') \<and> sent c' = sent c @ concat (write_queue c) \<and>
     write_queue c' = [] \<and> submitted_puts c' = submitted_puts c \<and> write_watcher c' = write_watcher c"
proof (induction sock c rule: handle_write.induct)
  case (1 sock c)
  obtain s1 c1 where b: "handle_write_body sock c = (s1, c1)" by force
  show ?case
  proof (cases s1)
    case Continue
    note b' = b [unfolded Continue]
    from handle_write_body_Continue_facts [OF b'] obtain m where
      m: "write_queue c = m # write_queue c1" "sent c1 = sent c @ m"
      "submitted_puts c1 = submitted_puts c" "write_watcher c1 = write_watcher c" by blast
    from "1.IH" [OF b [symmetric] Continue "1.prems"] obtain c' where
      "handle_write sock c1 = (Suspended, c')" "sent c' = sent c1 @ concat (write_queue c1)"
      "write_queue c' = []" "submitted_puts c' = submitted_puts c1"
      "write_watcher c' = write_watcher c1" by blast
    then show ?thesis using m handle_write_unfold(1) [OF b'] by simp
  next
    case Suspended
    note b' = b [unfolded Suspended]
    from handle_write_body_Suspended [OF b'] handle_write_unfold(2) [OF b']
    show ?thesis by simp
  next
    case Returned
    from handle_write_body_Returned [OF b [unfolded Returned]] "1.prems"
    show ?thesis by auto
  qed
qed

text \<open>
  C2. On a connection with a positive \<^verbatim>\<open>out_buffer_size\<close>, under every interleaving
  of \<^verbatim>\<open>push\<close> calls, puts run by the loop and passes of the write loop, the bytes the
  socket has taken are a prefix of: the bytes sent before, the chunks queued before,
  and the pushed payloads in the order of the pushes. When the write task is scheduled
  and no send raises, the socket has taken exactly that sequence once the loop has
  settled. So every byte of an earlier push goes out before any byte of a later one,
  whatever the sizes.
\<close>

theorem push_order_on_the_socket:
  assumes "0 < out_buffer_size c"
  shows "prefix (sent (run_actions sock c acts))
           (sent c @ concat (write_queue c) @ concat (submitted_puts c) @ concat (pushed acts)) \<and>
         (write_watcher c = Pending \<and> (\<forall>k. sock k = SendOK) \<longrightarrow>
            sent (loop_settles sock (run_actions sock c acts))
              = sent c @ concat (write_queue c) @ concat (submitted_puts c) @ concat (pushed acts))"
proof (intro conjI impI)
  show "prefix (sent (run_actions sock c acts))
           (sent c @ concat (write_queue c) @ concat (submitted_puts c) @ concat (pushed acts))"
    using assms by (rule run_actions_order)
next
  assume h: "write_watcher c = Pending \<and> (\<forall>k. sock k = SendOK)"
  let ?c = "run_actions sock c acts"
  let ?c1 = "?c\<lparr>submitted_puts := [], write_queue := write_queue ?c @ submitted_puts ?c\<rparr>"
  from run_actions_no_failure [OF assms, of sock acts] h
  have r: "write_watcher ?c = Pending"
    "sent ?c @ concat (write_queue ?c) @ concat (submitted_puts ?c)
       = sent c @ concat (write_queue c) @ concat (submitted_puts c) @ concat (pushed acts)"
    by simp_all
  from handle_write_no_failure [of sock ?c1] h obtain c' where
    c': "handle_write sock ?c1 = (Suspended, c')" "sent c' = sent ?c1 @ concat (write_queue ?c1)"
    by blast
  have "loop_settles sock ?c = c'"
    using r(1) c'(1) by (simp add: loop_settles_def finish_task_def Let_def)
  then show "sent (loop_settles sock (run_actions sock c acts))
              = sent c @ concat (write_queue c) @ concat (submitted_puts c) @ concat (pushed acts)"
    using c'(2) r(2) by simp
qed

text \<open>
  The theorem on two pushes of five bytes with size 4, the loop running in between.
\<close>

theorem push_order_on_the_socket_witness:
  "0 < out_buffer_size (new_connection 4) \<and> write_watcher (new_connection 4) = Pending \<and>
   (\<forall>k. (\<lambda>k. SendOK) k = SendOK) \<and>
   prefix (sent (run_actions (\<lambda>k. SendOK) (new_connection 4)
        [CallPush ''AAAAA'', LoopRunsPut, LoopResumesWrite, CallPush ''BBBBB'']))
      ''AAAAABBBBB'' \<and>
   sent (loop_settles (\<lambda>k. SendOK) (run_actions (\<lambda>k. SendOK) (new_connection 4)
        [CallPush ''AAAAA'', LoopRunsPut, LoopResumesWrite, CallPush ''BBBBB'']))
      = ''AAAAABBBBB''"
proof -
  have h: "0 < out_buffer_size (new_connection 4)" by (simp add: new_connection_def)
  have p: "write_watcher (new_connection 4) = Pending" by (simp add: new_connection_def)
  have e: "sent (new_connection 4) @ concat (write_queue (new_connection 4))
      @ concat (submitted_puts (new_connection 4))
      @ concat (pushed [CallPush ''AAAAA'', LoopRunsPut, LoopResumesWrite, CallPush ''BBBBB''])
      = ''AAAAABBBBB''"
    by (simp add: new_connection_def)
  show ?thesis
    using h p push_order_on_the_socket [OF h, of "\<lambda>k. SendOK"
        "[CallPush ''AAAAA'', LoopRunsPut, LoopResumesWrite, CallPush ''BBBBB'']"]
    unfolding e by simp
qed

subsection \<open>The read loop\<close>

lemma bytesio_tell_write: "buf \<noteq> [] \<Longrightarrow> bytesio_tell (bytesio_write b buf) \<noteq> 0"
  by (simp add: bytesio_tell_def bytesio_write_def)

lemma bytesio_write_empty: "bytesio_write b [] = b"
  by (simp add: bytesio_write_def)

text \<open>
  A loop that is suspended after some receives goes on from there with the next ones.
\<close>

lemma handle_read_append:
  "handle_read pib pre c = (Suspended, c1) \<Longrightarrow>
   handle_read pib (pre @ rs) c = handle_read pib rs c1"
proof (induction pib pre c rule: handle_read.induct)
  case (1 pib c)
  then show ?case by simp
next
  case (2 pib buf rs' c)
  then show ?case by (simp add: Let_def split: if_splits)
next
  case (3 pib err rs' c)
  then show ?case by (auto simp: Let_def split: if_splits)
qed

lemma handle_read_Suspended_calls:
  "handle_read pib pre c = (Suspended, c1) \<Longrightarrow>
   \<exists>evs. calls c1 = calls c @ evs \<and> Close \<notin> set evs \<and> (\<forall>e. Defunct e \<notin> set evs) \<and>
     length (filter (\<lambda>e. e = Recv) evs) = length pre"
proof (induction pib pre c arbitrary: c1 rule: handle_read.induct)
  case (1 pib c)
  then show ?case by simp
next
  case (2 pib buf rs' c)
  let ?c1 = "c\<lparr>iobuf := bytesio_write (iobuf c) buf, calls := calls c @ [Recv]\<rparr>"
  let ?c2 = "?c1\<lparr>iobuf := pib (iobuf ?c1), calls := calls ?c1 @ [ProcessIoBuffer]\<rparr>"
  from "2.prems" have cond: "buf \<noteq> [] \<and> bytesio_tell (iobuf ?c1) \<noteq> 0"
    and run: "handle_read pib rs' ?c2 = (Suspended, c1)"
    by (simp_all add: Let_def split: if_splits)
  from "2.IH" [OF refl cond run] obtain evs where
    "calls c1 = calls ?c2 @ evs" "Close \<notin> set evs" "\<forall>e. Defunct e \<notin> set evs"
    "length (filter (\<lambda>e. e = Recv) evs) = length rs'" by blast
  then have "calls c1 = calls c @ (Recv # ProcessIoBuffer # evs) \<and>
      Close \<notin> set (Recv # ProcessIoBuffer # evs) \<and>
      (\<forall>e. Defunct e \<notin> set (Recv # ProcessIoBuffer # evs)) \<and>
      length (filter (\<lambda>e. e = Recv) (Recv # ProcessIoBuffer # evs)) = length (RecvData buf # rs')"
    by simp
  then show ?case by blast
next
  case (3 pib err rs' c)
  let ?c1 = "c\<lparr>calls := calls c @ [Recv]\<rparr>"
  let ?c2 = "?c1\<lparr>calls := calls ?c1 @ [Yield]\<rparr>"
  from "3.prems" have cond: "err = SSLWantWriteError \<or> err = SSLWantReadError"
    and run: "handle_read pib rs' ?c2 = (Suspended, c1)"
    by (simp_all add: Let_def split: if_splits)
  from "3.IH" [OF refl cond run] obtain evs where
    "calls c1 = calls ?c2 @ evs" "Close \<notin> set evs" "\<forall>e. Defunct e \<notin> set evs"
    "length (filter (\<lambda>e. e = Recv) evs) = length rs'" by blast
  then have "calls c1 = calls c @ (Recv # Yield # evs) \<and>
      Close \<notin> set (Recv # Yield # evs) \<and>
      (\<forall>e. Defunct e \<notin> set (Recv # Yield # evs)) \<and>
      length (filter (\<lambda>e. e = Recv) (Recv # Yield # evs)) = length (RecvRaises err # rs')"
    by simp
  then show ?case by blast
qed

text \<open>
  C6. When the read loop, still running after the receives \<open>pre\<close>, receives zero
  bytes, it calls \<^verbatim>\<open>close()\<close> and returns: the log ends with that receive and one
  \<^verbatim>\<open>Close\<close>, there is no other \<^verbatim>\<open>Close\<close> and no \<^verbatim>\<open>Defunct\<close> in it, and the
  receives made are those of \<open>pre\<close> and this one, whatever the socket would have
  answered afterwards (\<open>post\<close>).
\<close>

theorem zero_byte_receive_closes:
  assumes "handle_read pib pre c = (Suspended, c1)"
  shows "handle_read pib (pre @ RecvData [] # post) c
           = (Returned, close (c1\<lparr>calls := calls c1 @ [Recv, Close]\<rparr>)) \<and>
         (\<exists>evs. calls (snd (handle_read pib (pre @ RecvData [] # post) c))
                   = calls c @ evs @ [Recv, Close] \<and>
                 Close \<notin> set evs \<and> (\<forall>e. Defunct e \<notin> set evs) \<and>
                 length (filter (\<lambda>e. e = Recv) (evs @ [Recv, Close])) = length pre + 1)"
proof -
  have run: "handle_read pib (pre @ RecvData [] # post) c
      = (Returned, close (c1\<lparr>calls := calls c1 @ [Recv, Close]\<rparr>))"
    using handle_read_append [OF assms, of "RecvData [] # post"]
    by (simp add: bytesio_write_empty)
  have "calls (close (c1\<lparr>calls := calls c1 @ [Recv, Close]\<rparr>)) = calls c1 @ [Recv, Close]"
    by (simp add: close_def)
  with handle_read_Suspended_calls [OF assms] run show ?thesis by auto
qed

theorem zero_byte_receive_closes_witness:
  "handle_read id [RecvData ''ab''] (new_connection 4)
     = (Suspended, (new_connection 4)\<lparr>iobuf := \<lparr>contents = ''ab'', pos = 2\<rparr>,
                                       calls := [Recv, ProcessIoBuffer]\<rparr>) \<and>
   handle_read id ([RecvData ''ab''] @ RecvData [] # [RecvData ''cd'']) (new_connection 4)
     = (Returned, close ((new_connection 4)\<lparr>iobuf := \<lparr>contents = ''ab'', pos = 2\<rparr>,
                                       calls := [Recv, ProcessIoBuffer, Recv, Close]\<rparr>))"
proof -
  let ?c1 = "(new_connection 4)\<lparr>iobuf := \<lparr>contents = ''ab'', pos = 2\<rparr>,
                                       calls := [Recv, ProcessIoBuffer]\<rparr>"
  have run: "handle_read id [RecvData ''ab''] (new_connection 4) = (Suspended, ?c1)"
    by (simp add: new_connection_def bytesio_write_def bytesio_tell_def)
  show ?thesis
    using run zero_byte_receive_closes [OF run, of "[RecvData ''cd'']"] by simp
qed

text \<open>
  C7. When a receive of the running read loop raises \<^verbatim>\<open>ssl.SSLWantWriteError\<close> or
  \<^verbatim>\<open>ssl.SSLWantReadError\<close>, the loop goes on with the next receive from a connection
  that differs only by the log, which gets the receive and one \<^verbatim>\<open>Yield\<close>: the input
  buffer is as before, \<^verbatim>\<open>defunct\<close> is not called, the loop has not returned (it is
  suspended in the retried receive when the socket has nothing more to say), and a
  receive of data that follows is written to the buffer and processed.
\<close>

theorem tls_want_retries:
  assumes "handle_read pib pre c = (Suspended, c1)"
    and "err = SSLWantWriteError \<or> err = SSLWantReadError"
  shows "handle_read pib (pre @ RecvRaises err # post) c
           = handle_read pib post (c1\<lparr>calls := calls c1 @ [Recv, Yield]\<rparr>) \<and>
         handle_read pib (pre @ [RecvRaises err]) c
           = (Suspended, c1\<lparr>calls := calls c1 @ [Recv, Yield]\<rparr>) \<and>
         (buf \<noteq> [] \<longrightarrow>
            handle_read pib (pre @ [RecvRaises err, RecvData buf]) c
              = (Suspended, c1\<lparr>iobuf := pib (bytesio_write (iobuf c1) buf),
                               calls := calls c1 @ [Recv, Yield, Recv, ProcessIoBuffer]\<rparr>))"
proof (intro conjI impI)
  show "handle_read pib (pre @ RecvRaises err # post) c
           = handle_read pib post (c1\<lparr>calls := calls c1 @ [Recv, Yield]\<rparr>)"
    using handle_read_append [OF assms(1), of "RecvRaises err # post"] assms(2) by auto
  show "handle_read pib (pre @ [RecvRaises err]) c
           = (Suspended, c1\<lparr>calls := calls c1 @ [Recv, Yield]\<rparr>)"
    using handle_read_append [OF assms(1), of "[RecvRaises err]"] assms(2) by auto
  assume "buf \<noteq> []"
  then show "handle_read pib (pre @ [RecvRaises err, RecvData buf]) c
              = (Suspended, c1\<lparr>iobuf := pib (bytesio_write (iobuf c1) buf),
                               calls := calls c1 @ [Recv, Yield, Recv, ProcessIoBuffer]\<rparr>)"
    using handle_read_append [OF assms(1), of "[RecvRaises err, RecvData buf]"] assms(2)
    by (auto simp: Let_def bytesio_tell_write)
qed

theorem tls_want_retries_witness:
  "handle_read id [RecvData ''ab''] (new_connection 4)
     = (Suspended, (new_connection 4)\<lparr>iobuf := \<lparr>contents = ''ab'', pos = 2\<rparr>,
                                       calls := [Recv, ProcessIoBuffer]\<rparr>) \<and>
   handle_read id ([RecvData ''ab''] @ [RecvRaises SSLWantReadError]) (new_connection 4)
     = (Suspended, (new_connection 4)\<lparr>iobuf := \<lparr>contents = ''ab'', pos = 2\<rparr>,
                                       calls := [Recv, ProcessIoBuffer, Recv, Yield]\<rparr>) \<and>
   handle_read id ([RecvData ''ab''] @ [RecvRaises SSLWantReadError, RecvData ''cd''])
       (new_connection 4)
     = (Suspended, (new_connection 4)\<lparr>iobuf := \<lparr>contents = ''abcd'', pos = 4\<rparr>,
            calls := [Recv, ProcessIoBuffer, Recv, Yield, Recv, ProcessIoBuffer]\<rparr>)"
proof -
  let ?c1 = "(new_connection 4)\<lparr>iobuf := \<lparr>contents = ''ab'', pos = 2\<rparr>,
                                       calls := [Recv, ProcessIoBuffer]\<rparr>"
  have run: "handle_read id [RecvData ''ab''] (new_connection 4) = (Suspended, ?c1)"
    by (simp add: new_connection_def bytesio_write_def bytesio_tell_def)
  have err: "SSLWantReadError = SSLWantWriteError \<or> SSLWantReadError = SSLWantReadError" by simp
  have w: "bytesio_write \<lparr>contents = ''ab'', pos = 2\<rparr> ''cd'' = \<lparr>contents = ''abcd'', pos = 4\<rparr>"
    by (simp add: bytesio_write_def)
  show ?thesis
    using run tls_want_retries [OF run err, of "[]" "''cd''"] by (simp add: w)
qed

subsection \<open>Closing twice\<close>





text \<open>
  The steps of one call, taken without interruption, are \<^verbatim>\<open>close\<close>.
\<close>

lemma close_step_by_step:
  "\<not> is_closed c \<Longrightarrow>
     close_race [True, True, True, True] (Entering, pb, c) = (ReturnedAtEnd, pb, close c)"
  "is_closed c \<Longrightarrow> close_race [True] (Entering, pb, c) = (ReturnedEarly, pb, close c)"
  by (simp_all add: close_def)



subsection \<open>The loop and its thread\<close>

text \<open>
  In the process that imported the module, a second \<^verbatim>\<open>initialize_reactor\<close> changes
  nothing: the connections share one loop and one thread.
\<close>

lemma initialize_reactor_same_process:
  assumes "initialize_reactor p g r = (None, r')" and "pid r = p"
  shows "initialize_reactor p g' r' = (None, r')"
  using assms
  by (auto simp: initialize_reactor_def start_loop_thread_def Let_def
      split: option.splits sum.splits if_splits)

text \<open>
  After a fork the recorded pid differs and the loop is looked up again, but
  \<^verbatim>\<open>_loop_thread\<close> still holds the thread of the parent, so no thread is started, and
  \<^verbatim>\<open>_pid\<close> is left as it was.
\<close>

lemma initialize_reactor_after_fork:
  assumes "pid r \<noteq> p" and "loop_thread r = Some t"
  shows "initialize_reactor p (Inr l) r = (None, r\<lparr>loop := Some l\<rparr>)"
  using assms by (simp add: initialize_reactor_def)

text \<open>
  C3. A new loop and thread pair after a fork is not what the code gives.
  \<^verbatim>\<open>initialize_reactor\<close> in process 7 takes loop 1 and starts a thread for it; in the
  forked child, process 8, where the current loop is loop 2, it takes loop 2 and starts
  nothing: the only thread ever started is the parent's, for loop 1, and the recorded
  pid is still 7.
\<close>

theorem no_thread_after_fork:
  "initialize_reactor 7 (Inr 1) (reactor_at_import 7)
     = (None, (reactor_at_import 7)\<lparr>loop := Some 1,
          loop_thread := Some \<lparr>target = 1, started_in = 7\<rparr>,
          threads_started := [\<lparr>target = 1, started_in = 7\<rparr>]\<rparr>) \<and>
   initialize_reactor 8 (Inr 2) ((reactor_at_import 7)\<lparr>loop := Some 1,
          loop_thread := Some \<lparr>target = 1, started_in = 7\<rparr>,
          threads_started := [\<lparr>target = 1, started_in = 7\<rparr>]\<rparr>)
     = (None, (reactor_at_import 7)\<lparr>loop := Some 2,
          loop_thread := Some \<lparr>target = 1, started_in = 7\<rparr>,
          threads_started := [\<lparr>target = 1, started_in = 7\<rparr>]\<rparr>)"
  by (simp add: initialize_reactor_def start_loop_thread_def reactor_at_import_def Let_def)

subsection \<open>Timers\<close>

text \<open>
  C8. For every timer that \<^verbatim>\<open>create_timer\<close> returns, reading \<^verbatim>\<open>end\<close> and calling
  \<^verbatim>\<open>finish()\<close> raise \<^verbatim>\<open>NotImplementedError\<close>, and \<^verbatim>\<open>cancel()\<close> returns, having
  cancelled the handle of the timer.
\<close>

theorem timer_end_finish_raise_cancel_returns:
  "create_timer r timeout callback = (Inr t, r') \<Longrightarrow>
     AsyncioTimer_end t = Inl NotImplementedError \<and>
     AsyncioTimer_finish t = Inl NotImplementedError \<and>
     AsyncioTimer_cancel t r'' = (Inr (), r''\<lparr>cancel_calls := cancel_calls r'' @ [handle t]\<rparr>)"
  by (simp add: AsyncioTimer_end_def AsyncioTimer_finish_def AsyncioTimer_cancel_def)

theorem timer_end_finish_raise_cancel_returns_witness:
  "create_timer ((reactor_at_import 7)\<lparr>loop := Some 1\<rparr>) 2 5
      = (Inr \<lparr>handle = 0\<rparr>,
         (reactor_at_import 7)\<lparr>loop := Some 1, delayed_calls := [(1, 2, 5)], futures := 1\<rparr>) \<and>
   AsyncioTimer_end \<lparr>handle = 0\<rparr> = Inl NotImplementedError \<and>
   AsyncioTimer_finish \<lparr>handle = 0\<rparr> = Inl NotImplementedError \<and>
   fst (AsyncioTimer_cancel \<lparr>handle = 0\<rparr> (reactor_at_import 7)) = Inr ()"
proof -
  have h: "create_timer ((reactor_at_import 7)\<lparr>loop := Some 1\<rparr>) 2 5
      = (Inr \<lparr>handle = 0\<rparr>,
         (reactor_at_import 7)\<lparr>loop := Some 1, delayed_calls := [(1, 2, 5)], futures := 1\<rparr>)"
    by (simp add: create_timer_def AsyncioTimer_init_def reactor_at_import_def)
  show ?thesis
    using h timer_end_finish_raise_cancel_returns [OF h, of "reactor_at_import 7"] by simp
qed

lemma initialize_reactor_loop:
  "initialize_reactor getpid get_event_loop r = (None, r') \<Longrightarrow> loop r' \<noteq> None"
  by (auto simp: initialize_reactor_def start_loop_thread_def Let_def
      split: option.splits sum.splits if_splits)

lemma create_timer_keeps_loop:
  "loop (snd (create_timer r timeout callback)) = loop r"
  by (simp add: create_timer_def AsyncioTimer_init_def split: option.splits)

lemma initialize_reactor_keeps_loop:
  assumes "loop r = Some l" and "pid r = getpid"
  shows "\<exists>r'. initialize_reactor getpid get_event_loop r = (None, r') \<and> loop r' = Some l \<and>
           pid r' = getpid"
  using assms by (simp add: initialize_reactor_def start_loop_thread_def Let_def)

text \<open>
  That \<^verbatim>\<open>initialize_reactor\<close> has run does not keep \<^verbatim>\<open>create_timer\<close> from the
  \<^verbatim>\<open>None\<close> loop. Process 7 initialises and takes loop 1. In its forked child, process
  8, the recorded pid differs, so \<^verbatim>\<open>initialize_reactor\<close> resets the loop before it
  calls \<^verbatim>\<open>get_event_loop()\<close>; called from a thread where that raises, it leaves the loop
  \<^verbatim>\<open>None\<close>, and \<^verbatim>\<open>create_timer\<close> raises \<^verbatim>\<open>AttributeError\<close> and schedules nothing.
\<close>

theorem create_timer_after_failed_initialize:
  "initialize_reactor 7 (Inr 1) (reactor_at_import 7)
     = (None, (reactor_at_import 7)\<lparr>loop := Some 1,
          loop_thread := Some \<lparr>target = 1, started_in = 7\<rparr>,
          threads_started := [\<lparr>target = 1, started_in = 7\<rparr>]\<rparr>) \<and>
   initialize_reactor 8 (Inl RuntimeError) ((reactor_at_import 7)\<lparr>loop := Some 1,
          loop_thread := Some \<lparr>target = 1, started_in = 7\<rparr>,
          threads_started := [\<lparr>target = 1, started_in = 7\<rparr>]\<rparr>)
     = (Some RuntimeError, (reactor_at_import 7)\<lparr>loop := None,
          loop_thread := Some \<lparr>target = 1, started_in = 7\<rparr>,
          threads_started := [\<lparr>target = 1, started_in = 7\<rparr>]\<rparr>) \<and>
   create_timer ((reactor_at_import 7)\<lparr>loop := None,
          loop_thread := Some \<lparr>target = 1, started_in = 7\<rparr>,
          threads_started := [\<lparr>target = 1, started_in = 7\<rparr>]\<rparr>) 2 5
     = (Inl AttributeError, (reactor_at_import 7)\<lparr>loop := None,
          loop_thread := Some \<lparr>target = 1, started_in = 7\<rparr>,
          threads_started := [\<lparr>target = 1, started_in = 7\<rparr>]\<rparr>)"
  by (simp add: initialize_reactor_def start_loop_thread_def reactor_at_import_def Let_def
      create_timer_def AsyncioTimer_init_def)

text \<open>
  C9, amended. While the class-level loop is \<^verbatim>\<open>None\<close>, \<^verbatim>\<open>create_timer\<close> raises
  \<^verbatim>\<open>AttributeError\<close> and schedules nothing; the loop is \<^verbatim>\<open>None\<close> at the import of the
  module, and \<^verbatim>\<open>create_timer\<close> never changes it. Right after an
  \<^verbatim>\<open>initialize_reactor\<close> that returned normally the loop is set and \<^verbatim>\<open>create_timer\<close>
  does not take that branch: on a loop that is not closed it returns a timer, with the
  delayed call handed to the loop, and on a closed loop it raises \<^verbatim>\<open>RuntimeError\<close> and
  schedules nothing. In the process whose pid is the recorded one, once the loop is set
  every later \<^verbatim>\<open>initialize_reactor\<close> returns normally and leaves it set.
\<close>

theorem create_timer_needs_loop:
  "(loop r = None \<longrightarrow> create_timer r timeout callback = (Inl AttributeError, r)) \<and>
   create_timer (reactor_at_import p) timeout callback = (Inl AttributeError, reactor_at_import p) \<and>
   loop (snd (create_timer r timeout callback)) = loop r \<and>
   (initialize_reactor getpid get_event_loop r = (None, r') \<longrightarrow>
      (\<exists>l. loop r' = Some l \<and>
         (if l \<in> set (closed_loops r')
          then create_timer r' timeout callback = (Inl RuntimeError, r')
          else create_timer r' timeout callback
                 = (Inr \<lparr>handle = futures r'\<rparr>,
                    r'\<lparr>delayed_calls := delayed_calls r' @ [(l, timeout, callback)],
                       futures := futures r' + 1\<rparr>)))) \<and>
   (loop r = Some l' \<and> pid r = getpid \<longrightarrow>
      (\<exists>r''. initialize_reactor getpid get_event_loop r = (None, r'') \<and> loop r'' = Some l' \<and>
         pid r'' = getpid))"
proof (intro conjI impI)
  assume "loop r = None"
  then show "create_timer r timeout callback = (Inl AttributeError, r)"
    by (simp add: create_timer_def AsyncioTimer_init_def)
next
  show "create_timer (reactor_at_import p) timeout callback = (Inl AttributeError, reactor_at_import p)"
    by (simp add: create_timer_def AsyncioTimer_init_def reactor_at_import_def)
next
  show "loop (snd (create_timer r timeout callback)) = loop r"
    by (rule create_timer_keeps_loop)
next
  assume "initialize_reactor getpid get_event_loop r = (None, r')"
  then have "loop r' \<noteq> None" by (rule initialize_reactor_loop)
  then obtain l where "loop r' = Some l" by blast
  then show "\<exists>l. loop r' = Some l \<and>
         (if l \<in> set (closed_loops r')
          then create_timer r' timeout callback = (Inl RuntimeError, r')
          else create_timer r' timeout callback
                 = (Inr \<lparr>handle = futures r'\<rparr>,
                    r'\<lparr>delayed_calls := delayed_calls r' @ [(l, timeout, callback)],
                       futures := futures r' + 1\<rparr>))"
    by (simp add: create_timer_def AsyncioTimer_init_def)
next
  assume "loop r = Some l' \<and> pid r = getpid"
  then show "\<exists>r''. initialize_reactor getpid get_event_loop r = (None, r'') \<and> loop r'' = Some l' \<and>
         pid r'' = getpid"
    using initialize_reactor_keeps_loop [of r l' getpid get_event_loop] by simp
qed

text \<open>
  The theorem in process 7, before and after the first \<^verbatim>\<open>initialize_reactor\<close>, on an
  open loop, and after loop 1 has been closed.
\<close>

theorem create_timer_needs_loop_witness:
  "loop (reactor_at_import 7) = None \<and>
   create_timer (reactor_at_import 7) 2 5 = (Inl AttributeError, reactor_at_import 7) \<and>
   initialize_reactor 7 (Inr 1) (reactor_at_import 7)
     = (None, (reactor_at_import 7)\<lparr>loop := Some 1,
          loop_thread := Some \<lparr>target = 1, started_in = 7\<rparr>,
          threads_started := [\<lparr>target = 1, started_in = 7\<rparr>]\<rparr>) \<and>
   create_timer ((reactor_at_import 7)\<lparr>loop := Some 1,
          loop_thread := Some \<lparr>target = 1, started_in = 7\<rparr>,
          threads_started := [\<lparr>target = 1, started_in = 7\<rparr>]\<rparr>) 2 5
     = (Inr \<lparr>handle = 0\<rparr>,
        (reactor_at_import 7)\<lparr>loop := Some 1,
          loop_thread := Some \<lparr>target = 1, started_in = 7\<rparr>,
          threads_started := [\<lparr>target = 1, started_in = 7\<rparr>],
          delayed_calls := [(1, 2, 5)], futures := 1\<rparr>) \<and>
   initialize_reactor 7 (Inr 1) ((reactor_at_import 7)\<lparr>closed_loops := [1]\<rparr>)
     = (None, (reactor_at_import 7)\<lparr>closed_loops := [1], loop := Some 1,
          loop_thread := Some \<lparr>target = 1, started_in = 7\<rparr>,
          threads_started := [\<lparr>target = 1, started_in = 7\<rparr>]\<rparr>) \<and>
   create_timer ((reactor_at_import 7)\<lparr>closed_loops := [1], loop := Some 1,
          loop_thread := Some \<lparr>target = 1, started_in = 7\<rparr>,
          threads_started := [\<lparr>target = 1, started_in = 7\<rparr>]\<rparr>) 2 5
     = (Inl RuntimeError, (reactor_at_import 7)\<lparr>closed_loops := [1], loop := Some 1,
          loop_thread := Some \<lparr>target = 1, started_in = 7\<rparr>,
          threads_started := [\<lparr>target = 1, started_in = 7\<rparr>]\<rparr>)"
proof -
  let ?r' = "(reactor_at_import 7)\<lparr>loop := Some 1,
          loop_thread := Some \<lparr>target = 1, started_in = 7\<rparr>,
          threads_started := [\<lparr>target = 1, started_in = 7\<rparr>]\<rparr>"
  let ?rc = "(reactor_at_import 7)\<lparr>closed_loops := [1]\<rparr>"
  let ?rc' = "(reactor_at_import 7)\<lparr>closed_loops := [1], loop := Some 1,
          loop_thread := Some \<lparr>target = 1, started_in = 7\<rparr>,
          threads_started := [\<lparr>target = 1, started_in = 7\<rparr>]\<rparr>"
  have n: "loop (reactor_at_import 7) = None" by (simp add: reactor_at_import_def)
  have i: "initialize_reactor 7 (Inr 1) (reactor_at_import 7) = (None, ?r')"
    by (simp add: initialize_reactor_def start_loop_thread_def reactor_at_import_def Let_def)
  have ic: "initialize_reactor 7 (Inr 1) ?rc = (None, ?rc')"
    by (simp add: initialize_reactor_def start_loop_thread_def reactor_at_import_def Let_def)
  have l: "loop ?r' = Some 1" "1 \<notin> set (closed_loops ?r')" "futures ?r' = 0"
    "delayed_calls ?r' = []"
    by (simp_all add: reactor_at_import_def)
  have lc: "loop ?rc' = Some 1" "1 \<in> set (closed_loops ?rc')"
    by (simp_all add: reactor_at_import_def)
  from create_timer_needs_loop [where r = "reactor_at_import 7" and timeout = 2 and callback = 5
      and getpid = 7 and get_event_loop = "Inr 1" and r' = ?r'] n i l
  have a: "create_timer (reactor_at_import 7) 2 5 = (Inl AttributeError, reactor_at_import 7)"
    "create_timer ?r' 2 5
       = (Inr \<lparr>handle = 0\<rparr>, ?r'\<lparr>delayed_calls := [(1, 2, 5)], futures := 1\<rparr>)"
    by auto
  from create_timer_needs_loop [where r = ?rc and timeout = 2 and callback = 5
      and getpid = 7 and get_event_loop = "Inr 1" and r' = ?rc'] ic lc
  have b: "create_timer ?rc' 2 5 = (Inl RuntimeError, ?rc')"
    by auto
  from n a i ic b show ?thesis by simp
qed

text \<open>
  C10. When the right operand has no \<^verbatim>\<open>_handle\<close> attribute, \<^verbatim>\<open>__lt__\<close> raises
  \<^verbatim>\<open>TypeError\<close> (from \<^verbatim>\<open>raise NotImplemented\<close>); it does not return. For two
  timers the result is that of the comparison of their handles, whenever that
  comparison does not itself raise \<^verbatim>\<open>AttributeError\<close>.
\<close>

theorem timer_lt:
  "(getattr_handle other = Inl AttributeError \<longrightarrow> AsyncioTimer_lt handle_lt self other = Inl TypeError) \<and>
   AsyncioTimer_lt handle_lt self PyNone = Inl TypeError \<and>
   AsyncioTimer_lt handle_lt self (PyInt i) = Inl TypeError \<and>
   AsyncioTimer_lt handle_lt self (PyStr s) = Inl TypeError \<and>
   (handle_lt (handle self) (handle t) \<noteq> Inl AttributeError \<longrightarrow>
      AsyncioTimer_lt handle_lt self (Timer t) = handle_lt (handle self) (handle t))"
  by (auto simp: AsyncioTimer_lt_def getattr_handle_def split: sum.splits)

theorem timer_lt_witness:
  "getattr_handle PyNone = Inl AttributeError \<and>
   AsyncioTimer_lt (\<lambda>a b. Inr (a < b)) \<lparr>handle = 1\<rparr> PyNone = Inl TypeError \<and>
   (\<lambda>a b. Inr (a < b)) (handle \<lparr>handle = 1\<rparr>) (handle \<lparr>handle = 2\<rparr>) \<noteq> Inl AttributeError \<and>
   AsyncioTimer_lt (\<lambda>a b. Inr (a < b)) \<lparr>handle = 1\<rparr> (Timer \<lparr>handle = 2\<rparr>) = Inr True"
proof -
  have a: "getattr_handle PyNone = Inl AttributeError" by (simp add: getattr_handle_def)
  show ?thesis
    using a timer_lt [of PyNone "\<lambda>a b. Inr (a < b)" "\<lparr>handle = 1\<rparr>" 0 "[]" "\<lparr>handle = 2\<rparr>"]
    by simp
qed

end
